theory Spec2Isabelle
  imports Main
begin

section \<open>Rectangle\<close>

text \<open>
  \<^verbatim>\<open>function Rectangle(width, height) { this.width = width; this.height = height; }\<close>
  \<^verbatim>\<open>Rectangle.prototype.getArea = function() { return this.width * this.height; };\<close>

  The object is a record of its two fields. The number type is left as a type
  parameter that carries a multiplication, so that \<open>getArea\<close> is the product in
  whatever arithmetic the caller's numbers have.
\<close>

record 'n Rectangle =
  width :: 'n
  height :: 'n

definition Rectangle :: "'n \<Rightarrow> 'n \<Rightarrow> 'n Rectangle" where
  "Rectangle w h = \<lparr>width = w, height = h\<rparr>"

definition getArea :: "('n::times) Rectangle \<Rightarrow> 'n" where
  "getArea this = width this * height this"


section \<open>The selector builder\<close>

subsection \<open>Errors\<close>

text \<open>
  \<open>Error m\<close> is the \<^verbatim>\<open>new Error(m)\<close> thrown by \<open>checkRules\<close>; \<open>TypeError\<close> is
  what the runtime throws when \<^verbatim>\<open>reduce\<close> is called on a value that is not an array
  or \<^verbatim>\<open>Object.setPrototypeOf\<close> on \<^verbatim>\<open>null\<close>; \<open>SyntaxError\<close> is what
  \<^verbatim>\<open>JSON.parse\<close> throws on a text it cannot read.
\<close>

datatype error = Error string | TypeError | SyntaxError

definition occur_message :: string where
  "occur_message =
     ''Element, id and pseudo-element should not occur more then one time inside the selector''"

definition order_message :: string where
  "order_message =
     ''Selector parts should be arranged in the following order: element, id, class, attribute, pseudo-class, pseudo-element''"

subsection \<open>CssSelector: the object and its constructor\<close>

text \<open>
  The values handed to the builder are strings. A singleton field is \<^verbatim>\<open>null\<close>
  (\<open>None\<close>) or a string; the three multi-valued fields are arrays of strings.
\<close>

record CssSelector =
  elementItem :: "string option"
  idItem :: "string option"
  classItems :: "string list"
  attrItems :: "string list"
  pseudoClassItems :: "string list"
  pseudoElementItem :: "string option"
  multipleDataItem :: "nat list"
  rank :: nat

definition CssSelector :: CssSelector where
  "CssSelector =
     \<lparr>elementItem = None, idItem = None, classItems = [], attrItems = [],
      pseudoClassItems = [], pseudoElementItem = None,
      multipleDataItem = [3, 4, 5], rank = 0\<rparr>"

subsection \<open>checkRules\<close>

text \<open>\<^verbatim>\<open>Array.prototype.indexOf\<close>: the first index of the value, or \<open>-1\<close>.\<close>

fun indexOf :: "nat list \<Rightarrow> nat \<Rightarrow> int" where
  "indexOf [] x = - 1"
| "indexOf (y # ys) x =
     (if y = x then 0
      else (let i = indexOf ys x in if i = - 1 then - 1 else i + 1))"

text \<open>
  \<open>checkRules\<close> only reads the object. \<open>Some e\<close>: it throws \<open>e\<close>; \<open>None\<close>: it returns.
\<close>

definition checkRules :: "CssSelector \<Rightarrow> nat \<Rightarrow> error option" where
  "checkRules this stageIndex =
     (if rank this = stageIndex \<and> indexOf (multipleDataItem this) stageIndex = - 1
      then Some (Error occur_message)
      else if stageIndex < rank this
      then Some (Error order_message)
      else None)"

subsection \<open>The selector-part methods\<close>

text \<open>
  Each method returns the pair of what it threw (\<open>None\<close> when it returned \<^verbatim>\<open>this\<close>)
  and the object as the call leaves it. The assignments follow \<open>checkRules\<close>, in the
  order of the source.
\<close>

definition element :: "CssSelector \<Rightarrow> string \<Rightarrow> error option \<times> CssSelector" where
  "element this v =
     (case checkRules this 1 of
        Some e \<Rightarrow> (Some e, this)
      | None \<Rightarrow> (None, this\<lparr>rank := 1, elementItem := Some v\<rparr>))"

definition id_part :: "CssSelector \<Rightarrow> string \<Rightarrow> error option \<times> CssSelector" where
  "id_part this v =
     (case checkRules this 2 of
        Some e \<Rightarrow> (Some e, this)
      | None \<Rightarrow> (None, this\<lparr>rank := 2, idItem := Some v\<rparr>))"

definition class_part :: "CssSelector \<Rightarrow> string \<Rightarrow> error option \<times> CssSelector" where
  "class_part this v =
     (case checkRules this 3 of
        Some e \<Rightarrow> (Some e, this)
      | None \<Rightarrow> (None, this\<lparr>rank := 3, classItems := classItems this @ [v]\<rparr>))"

definition attr :: "CssSelector \<Rightarrow> string \<Rightarrow> error option \<times> CssSelector" where
  "attr this v =
     (case checkRules this 4 of
        Some e \<Rightarrow> (Some e, this)
      | None \<Rightarrow> (None, this\<lparr>rank := 4, attrItems := attrItems this @ [v]\<rparr>))"

definition pseudoClass :: "CssSelector \<Rightarrow> string \<Rightarrow> error option \<times> CssSelector" where
  "pseudoClass this v =
     (case checkRules this 5 of
        Some e \<Rightarrow> (Some e, this)
      | None \<Rightarrow> (None, this\<lparr>rank := 5, pseudoClassItems := pseudoClassItems this @ [v]\<rparr>))"

definition pseudoElement :: "CssSelector \<Rightarrow> string \<Rightarrow> error option \<times> CssSelector" where
  "pseudoElement this v =
     (case checkRules this 6 of
        Some e \<Rightarrow> (Some e, this)
      | None \<Rightarrow> (None, this\<lparr>rank := 6, pseudoElementItem := Some v\<rparr>))"

subsection \<open>toString and stringify\<close>

text \<open>
  The first argument of \<open>toString\<close> is \<^verbatim>\<open>null\<close>, a string or an array of strings.
\<close>

datatype items = Null | Str string | Arr "string list"

definition falsy :: "items \<Rightarrow> bool" where
  "falsy x = (x = Null \<or> x = Str [])"

definition isArray :: "items \<Rightarrow> bool" where
  "isArray x = (case x of Arr _ \<Rightarrow> True | _ \<Rightarrow> False)"

text \<open>
  \<^verbatim>\<open>items.reduce((prev, curr) => prev + before + curr + after, "")\<close>: a left fold over
  an array, a \<open>TypeError\<close> on anything else.
\<close>

definition reduce :: "items \<Rightarrow> string \<Rightarrow> string \<Rightarrow> error + string" where
  "reduce x before after =
     (case x of
        Arr xs \<Rightarrow> Inr (foldl (\<lambda>prev curr. prev @ before @ curr @ after) [] xs)
      | _ \<Rightarrow> Inl TypeError)"

definition toString :: "items \<Rightarrow> string \<Rightarrow> string \<Rightarrow> error + string" where
  "toString x before after =
     (let items1 = (if falsy x then Arr [] else x);
          items2 = (if \<not> isArray items1 \<and> items1 \<noteq> Null
                    then (case items1 of Str s \<Rightarrow> Arr [s] | other \<Rightarrow> other)
                    else items1)
      in reduce items2 before after)"

definition item_of :: "string option \<Rightarrow> items" where
  "item_of x = (case x of None \<Rightarrow> Null | Some s \<Rightarrow> Str s)"

text \<open>String \<open>+\<close> of two results, the left operand evaluated first.\<close>

definition str_plus :: "error + string \<Rightarrow> error + string \<Rightarrow> error + string" where
  "str_plus a b =
     (case a of
        Inl e \<Rightarrow> Inl e
      | Inr x \<Rightarrow> (case b of Inl e \<Rightarrow> Inl e | Inr y \<Rightarrow> Inr (x @ y)))"

definition stringify :: "CssSelector \<Rightarrow> error + string" where
  "stringify this =
     str_plus (str_plus (str_plus (str_plus (str_plus
       (toString (item_of (elementItem this)) [] [])
       (toString (item_of (idItem this)) ''#'' []))
       (toString (Arr (classItems this)) ''.'' []))
       (toString (Arr (attrItems this)) ''['' '']''))
       (toString (Arr (pseudoClassItems this)) '':'' []))
       (toString (item_of (pseudoElementItem this)) ''::'' [])"

subsection \<open>CssSelectorCombinator\<close>

text \<open>
  A selector-like value is a \<open>CssSelector\<close> or a combinator of two selector-like
  values. The combinator keeps its operands and the symbol as given. The source holds
  the operands by reference and reads them when \<open>stringify\<close> runs; here an operand
  is the state it has at that moment.
\<close>

datatype selector =
  Simple CssSelector
| CssSelectorCombinator (selector1: selector) (combinator: string) (selector2: selector)

fun stringify_sel :: "selector \<Rightarrow> error + string" where
  "stringify_sel (Simple this) = stringify this"
| "stringify_sel (CssSelectorCombinator s1 c s2) =
     str_plus (str_plus (str_plus (str_plus (stringify_sel s1) (Inr '' '')) (Inr c)) (Inr '' ''))
       (stringify_sel s2)"

subsection \<open>The facade cssSelectorBuilder\<close>

definition builder_element :: "string \<Rightarrow> error option \<times> CssSelector" where
  "builder_element v = element CssSelector v"

definition builder_id :: "string \<Rightarrow> error option \<times> CssSelector" where
  "builder_id v = id_part CssSelector v"

definition builder_class :: "string \<Rightarrow> error option \<times> CssSelector" where
  "builder_class v = class_part CssSelector v"

definition builder_attr :: "string \<Rightarrow> error option \<times> CssSelector" where
  "builder_attr v = attr CssSelector v"

definition builder_pseudoClass :: "string \<Rightarrow> error option \<times> CssSelector" where
  "builder_pseudoClass v = pseudoClass CssSelector v"

definition builder_pseudoElement :: "string \<Rightarrow> error option \<times> CssSelector" where
  "builder_pseudoElement v = pseudoElement CssSelector v"

definition combine :: "selector \<Rightarrow> string \<Rightarrow> selector \<Rightarrow> selector" where
  "combine s1 c s2 = CssSelectorCombinator s1 c s2"

subsection \<open>Sequences of calls\<close>

text \<open>
  A call of one of the six methods with its argument, the stage index the method
  passes to \<open>checkRules\<close>, and the dispatch.
\<close>

datatype part =
  ElementCall string
| IdCall string
| ClassCall string
| AttrCall string
| PseudoClassCall string
| PseudoElementCall string

fun stage :: "part \<Rightarrow> nat" where
  "stage (ElementCall v) = 1"
| "stage (IdCall v) = 2"
| "stage (ClassCall v) = 3"
| "stage (AttrCall v) = 4"
| "stage (PseudoClassCall v) = 5"
| "stage (PseudoElementCall v) = 6"

fun call :: "CssSelector \<Rightarrow> part \<Rightarrow> error option \<times> CssSelector" where
  "call this (ElementCall v) = element this v"
| "call this (IdCall v) = id_part this v"
| "call this (ClassCall v) = class_part this v"
| "call this (AttrCall v) = attr this v"
| "call this (PseudoClassCall v) = pseudoClass this v"
| "call this (PseudoElementCall v) = pseudoElement this v"

text \<open>
  A chain \<^verbatim>\<open>s.a(..).b(..)\<close>: the first throw ends it; otherwise the object after the
  last call.
\<close>

fun chain_calls :: "CssSelector \<Rightarrow> part list \<Rightarrow> error + CssSelector" where
  "chain_calls this [] = Inr this"
| "chain_calls this (p # ps) =
     (case call this p of
        (Some e, this') \<Rightarrow> Inl e
      | (None, this') \<Rightarrow> chain_calls this' ps)"

text \<open>
  Calls made one by one on the same object, the caller catching every throw:
  \<open>attempts\<close> is the object after them, \<open>recorded\<close> the calls that returned.
\<close>

fun attempts :: "CssSelector \<Rightarrow> part list \<Rightarrow> CssSelector" where
  "attempts this [] = this"
| "attempts this (p # ps) = attempts (snd (call this p)) ps"

fun recorded :: "CssSelector \<Rightarrow> part list \<Rightarrow> part list" where
  "recorded this [] = []"
| "recorded this (p # ps) =
     (case call this p of
        (Some e, this') \<Rightarrow> recorded this' ps
      | (None, this') \<Rightarrow> p # recorded this' ps)"

text \<open>The rank before the first of such calls and after each of them.\<close>

fun rank_trace :: "CssSelector \<Rightarrow> part list \<Rightarrow> nat list" where
  "rank_trace this [] = [rank this]"
| "rank_trace this (p # ps) = rank this # rank_trace (snd (call this p)) ps"

text \<open>\<^verbatim>\<open>builder.a(..).b(..).stringify()\<close> on a fresh object.\<close>

definition build :: "part list \<Rightarrow> error + string" where
  "build ps =
     (case chain_calls CssSelector ps of
        Inl e \<Rightarrow> Inl e
      | Inr this \<Rightarrow> stringify this)"



section \<open>The specification's words\<close>

text \<open>
  The arguments of the calls of one stage, in call order: stage 1 is element, 2 id,
  3 class, 4 attribute, 5 pseudo-class, 6 pseudo-element.
\<close>

fun argument :: "part \<Rightarrow> string" where
  "argument (ElementCall v) = v"
| "argument (IdCall v) = v"
| "argument (ClassCall v) = v"
| "argument (AttrCall v) = v"
| "argument (PseudoClassCall v) = v"
| "argument (PseudoElementCall v) = v"

definition values_of :: "nat \<Rightarrow> part list \<Rightarrow> string list" where
  "values_of k ps = map argument (filter (\<lambda>p. stage p = k) ps)"

text \<open>
  The output as the specification words it, for a sequence of calls that all returned:
  the element verbatim, \<open>#\<close> and the id, \<open>.\<close> and each class, each attribute in
  brackets, \<open>:\<close> and each pseudo-class, \<open>::\<close> and the pseudo-element; a part that
  was never given contributes nothing.
\<close>

definition spec_stringify :: "part list \<Rightarrow> string" where
  "spec_stringify ps =
     concat (values_of 1 ps) @
     concat (map (\<lambda>v. ''#'' @ v) (values_of 2 ps)) @
     concat (map (\<lambda>v. ''.'' @ v) (values_of 3 ps)) @
     concat (map (\<lambda>v. ''['' @ v @ '']'') (values_of 4 ps)) @
     concat (map (\<lambda>v. '':'' @ v) (values_of 5 ps)) @
     concat (map (\<lambda>v. ''::'' @ v) (values_of 6 ps))"

text \<open>
  The same, with a singleton part (element, id, pseudo-element) that was given as the
  empty string contributing nothing either.
\<close>

definition nonempty :: "string list \<Rightarrow> string list" where
  "nonempty vs = filter (\<lambda>v. v \<noteq> []) vs"

definition spec_stringify_nonempty :: "part list \<Rightarrow> string" where
  "spec_stringify_nonempty ps =
     concat (nonempty (values_of 1 ps)) @
     concat (map (\<lambda>v. ''#'' @ v) (nonempty (values_of 2 ps))) @
     concat (map (\<lambda>v. ''.'' @ v) (values_of 3 ps)) @
     concat (map (\<lambda>v. ''['' @ v @ '']'') (values_of 4 ps)) @
     concat (map (\<lambda>v. '':'' @ v) (values_of 5 ps)) @
     concat (map (\<lambda>v. ''::'' @ v) (nonempty (values_of 6 ps)))"

text \<open>What one part contributes to the output, in the specification's words.\<close>

fun part_text :: "part \<Rightarrow> string" where
  "part_text (ElementCall v) = v"
| "part_text (IdCall v) = ''#'' @ v"
| "part_text (ClassCall v) = ''.'' @ v"
| "part_text (AttrCall v) = ''['' @ v @ '']''"
| "part_text (PseudoClassCall v) = '':'' @ v"
| "part_text (PseudoElementCall v) = ''::'' @ v"

text \<open>
  The singleton categories and the multi-valued ones; the category most recently
  recorded, \<open>0\<close> ("none", below all categories) when nothing was; and when the
  specification has a call raise: a singleton category set a second time, or a category
  strictly earlier than the one most recently recorded.
\<close>

fun singleton_category :: "part \<Rightarrow> bool" where
  "singleton_category (ElementCall v) = True"
| "singleton_category (IdCall v) = True"
| "singleton_category (PseudoElementCall v) = True"
| "singleton_category other = False"

fun multi_valued :: "part \<Rightarrow> bool" where
  "multi_valued (ClassCall v) = True"
| "multi_valued (AttrCall v) = True"
| "multi_valued (PseudoClassCall v) = True"
| "multi_valued other = False"

definition last_stage :: "part list \<Rightarrow> nat" where
  "last_stage ps = (if ps = [] then 0 else stage (last ps))"

definition spec_raises :: "part list \<Rightarrow> part \<Rightarrow> bool" where
  "spec_raises rs p =
     ((singleton_category p \<and> stage p \<in> set (map stage rs)) \<or> stage p < last_stage rs)"

text \<open>
  How an object follows from the calls recorded on it: the fields hold their arguments
  and the rank is the stage of the last one, which is the largest.
\<close>

definition only :: "string list \<Rightarrow> string option" where
  "only vs = (case vs of [] \<Rightarrow> None | v # rest \<Rightarrow> Some v)"

definition tracks :: "CssSelector \<Rightarrow> part list \<Rightarrow> bool" where
  "tracks this ps =
     (multipleDataItem this = [3, 4, 5] \<and>
      rank this = last_stage ps \<and>
      sorted (map stage ps) \<and>
      list_all (\<lambda>p. stage p \<le> rank this) ps \<and>
      length (values_of 1 ps) \<le> 1 \<and>
      length (values_of 2 ps) \<le> 1 \<and>
      length (values_of 6 ps) \<le> 1 \<and>
      elementItem this = only (values_of 1 ps) \<and>
      idItem this = only (values_of 2 ps) \<and>
      classItems this = values_of 3 ps \<and>
      attrItems this = values_of 4 ps \<and>
      pseudoClassItems this = values_of 5 ps \<and>
      pseudoElementItem this = only (values_of 6 ps))"

text \<open>What \<open>toString\<close> returns for a singleton field.\<close>

definition shown :: "string \<Rightarrow> string option \<Rightarrow> string" where
  "shown before x =
     (case x of None \<Rightarrow> [] | Some v \<Rightarrow> (if v = [] then [] else before @ v))"


section \<open>getJSON and fromJSON\<close>

subsection \<open>JSON values\<close>

text \<open>
  The values the two helpers are about: \<^verbatim>\<open>null\<close>, booleans, numbers, strings, arrays
  and plain objects. An object is the list of its own properties in property order. The
  numbers of this model are the integers (the runtime's are doubles); strings are lists
  of characters with codes up to 255.
\<close>

datatype json =
  JNull
| JBool bool
| JNum int
| JStr string
| JArr "json list"
| JObj "(string \<times> json) list"

subsection \<open>JSON.stringify\<close>

text \<open>
  Modelled from the spec: the structured-data encoder of the specification's section 6,
  which the source takes from the runtime as \<^verbatim>\<open>JSON.stringify\<close>; its code is no part
  of the repository. The text is the runtime's for the values above: no white space, an
  integer in decimal, a string in double quotes with the double quote, the backslash
  and the control characters escaped, the elements of an array and the members of an
  object separated by commas in their order.
\<close>

definition digit_char :: "nat \<Rightarrow> char" where
  "digit_char d = char_of (48 + d)"

fun show_nat :: "nat \<Rightarrow> string" where
  "show_nat n =
     (if n < 10 then [digit_char n] else show_nat (n div 10) @ [digit_char (n mod 10)])"

declare show_nat.simps [simp del]

definition show_int :: "int \<Rightarrow> string" where
  "show_int i = (if i < 0 then CHR ''-'' # show_nat (nat (- i)) else show_nat (nat i))"

definition hex_char :: "nat \<Rightarrow> char" where
  "hex_char d = (if d < 10 then char_of (48 + d) else char_of (87 + d))"

definition quote_char :: "char \<Rightarrow> string" where
  "quote_char c =
     (if c = CHR 0x22 then [CHR 0x5C, CHR 0x22]
      else if c = CHR 0x5C then [CHR 0x5C, CHR 0x5C]
      else if c = CHR 0x08 then [CHR 0x5C, CHR ''b'']
      else if c = CHR 0x0C then [CHR 0x5C, CHR ''f'']
      else if c = CHR 0x0A then [CHR 0x5C, CHR ''n'']
      else if c = CHR 0x0D then [CHR 0x5C, CHR ''r'']
      else if c = CHR 0x09 then [CHR 0x5C, CHR ''t'']
      else if of_char c < (32::nat)
      then [CHR 0x5C, CHR ''u'', CHR ''0'', CHR ''0'',
            hex_char (of_char c div 16), hex_char (of_char c mod 16)]
      else [c])"

definition quote :: "string \<Rightarrow> string" where
  "quote s = CHR 0x22 # concat (map quote_char s) @ [CHR 0x22]"

fun commas :: "string list \<Rightarrow> string" where
  "commas [] = []"
| "commas [x] = x"
| "commas (x # y # ys) = x @ CHR '','' # commas (y # ys)"

fun JSON_stringify :: "json \<Rightarrow> string" where
  "JSON_stringify JNull = ''null''"
| "JSON_stringify (JBool b) = (if b then ''true'' else ''false'')"
| "JSON_stringify (JNum i) = show_int i"
| "JSON_stringify (JStr s) = quote s"
| "JSON_stringify (JArr xs) = CHR ''['' # commas (map JSON_stringify xs) @ '']''"
| "JSON_stringify (JObj ms) =
     CHR ''{'' # commas (map (\<lambda>(k, v). quote k @ CHR '':'' # JSON_stringify v) ms) @ ''}''"

subsection \<open>JSON.parse\<close>

text \<open>
  Modelled from the spec: the decoder of the specification's section 6, which the source
  takes from the runtime as \<^verbatim>\<open>JSON.parse\<close>; its code is no part of the repository.
  A recursive descent over the text: white space is skipped before every token, a string
  ends at the closing quote and its escapes are read back, a number is an optional sign
  and digits with no leading zero, \<open>SyntaxError\<close> is the result for anything else. When
  a key occurs twice the later value stands at the place of the first. The descent takes
  a bound on its depth, and two steps for every character of the text are enough.

  Numbers with a fraction or an exponent and escapes of code units above 00ff have no
  value in this model: the runtime reads them, here they are \<open>SyntaxError\<close>. \<open>JSON_stringify\<close>
  writes neither.
\<close>

definition is_ws :: "char \<Rightarrow> bool" where
  "is_ws c = (c = CHR '' '' \<or> c = CHR 0x09 \<or> c = CHR 0x0A \<or> c = CHR 0x0D)"

definition skip_ws :: "string \<Rightarrow> string" where
  "skip_ws s = dropWhile is_ws s"

definition is_digit :: "char \<Rightarrow> bool" where
  "is_digit c = (48 \<le> (of_char c :: nat) \<and> (of_char c :: nat) \<le> 57)"

definition digits_val :: "string \<Rightarrow> nat" where
  "digits_val ds = foldl (\<lambda>a c. 10 * a + (of_char c - 48)) 0 ds"

definition hex_val :: "char \<Rightarrow> nat option" where
  "hex_val c =
     (let n = (of_char c :: nat) in
      if 48 \<le> n \<and> n \<le> 57 then Some (n - 48)
      else if 97 \<le> n \<and> n \<le> 102 then Some (n - 87)
      else if 65 \<le> n \<and> n \<le> 70 then Some (n - 55)
      else None)"

definition unescape :: "char \<Rightarrow> char option" where
  "unescape e =
     (if e = CHR 0x22 then Some (CHR 0x22)
      else if e = CHR 0x5C then Some (CHR 0x5C)
      else if e = CHR ''/'' then Some (CHR ''/'')
      else if e = CHR ''b'' then Some (CHR 0x08)
      else if e = CHR ''f'' then Some (CHR 0x0C)
      else if e = CHR ''n'' then Some (CHR 0x0A)
      else if e = CHR ''r'' then Some (CHR 0x0D)
      else if e = CHR ''t'' then Some (CHR 0x09)
      else None)"

definition cons_char :: "char \<Rightarrow> (string \<times> string) option \<Rightarrow> (string \<times> string) option" where
  "cons_char c x = (case x of None \<Rightarrow> None | Some (s, r) \<Rightarrow> Some (c # s, r))"

fun parse_chars :: "string \<Rightarrow> (string \<times> string) option" where
  "parse_chars [] = None"
| "parse_chars (c # r) =
     (if c = CHR 0x22 then Some ([], r)
      else if c = CHR 0x5C then
        (case r of
           [] \<Rightarrow> None
         | e # r1 \<Rightarrow>
             if e = CHR ''u'' then
               (case r1 of
                  h1 # h2 # h3 # h4 # r2 \<Rightarrow>
                    (case (hex_val h1, hex_val h2, hex_val h3, hex_val h4) of
                       (Some a, Some b, Some c', Some d) \<Rightarrow>
                         if ((a * 16 + b) * 16 + c') * 16 + d < 256
                         then cons_char (char_of (((a * 16 + b) * 16 + c') * 16 + d))
                                (parse_chars r2)
                         else None
                     | _ \<Rightarrow> None)
                | _ \<Rightarrow> None)
             else
               (case unescape e of
                  None \<Rightarrow> None
                | Some ch \<Rightarrow> cons_char ch (parse_chars r1)))
      else if of_char c < (32::nat) then None
      else cons_char c (parse_chars r))"

definition parse_number :: "string \<Rightarrow> (json \<times> string) option" where
  "parse_number s =
     (let neg = (s \<noteq> [] \<and> hd s = CHR ''-'');
          t = (if neg then tl s else s);
          ds = takeWhile is_digit t;
          r = dropWhile is_digit t
      in if ds = [] then None
         else if hd ds = CHR ''0'' \<and> tl ds \<noteq> [] then None
         else if r \<noteq> [] \<and> (hd r = CHR ''.'' \<or> hd r = CHR ''e'' \<or> hd r = CHR ''E'') then None
         else Some (JNum (if neg then - int (digits_val ds) else int (digits_val ds)), r))"

definition strip :: "string \<Rightarrow> string \<Rightarrow> string option" where
  "strip p s = (if take (length p) s = p then Some (drop (length p) s) else None)"

definition member_cons :: "string \<Rightarrow> json \<Rightarrow> (string \<times> json) list \<Rightarrow> (string \<times> json) list" where
  "member_cons k v ms =
     (case map_of ms k of
        None \<Rightarrow> (k, v) # ms
      | Some v' \<Rightarrow> (k, v') # filter (\<lambda>m. fst m \<noteq> k) ms)"

fun parse_value :: "nat \<Rightarrow> string \<Rightarrow> (json \<times> string) option"
  and parse_elements :: "nat \<Rightarrow> string \<Rightarrow> (json list \<times> string) option"
  and parse_members :: "nat \<Rightarrow> string \<Rightarrow> ((string \<times> json) list \<times> string) option"
where
  "parse_value 0 s = None"
| "parse_value (Suc n) s =
     (case skip_ws s of
        [] \<Rightarrow> None
      | c # r \<Rightarrow>
          if c = CHR ''n'' then map_option (Pair JNull) (strip ''ull'' r)
          else if c = CHR ''t'' then map_option (Pair (JBool True)) (strip ''rue'' r)
          else if c = CHR ''f'' then map_option (Pair (JBool False)) (strip ''alse'' r)
          else if c = CHR 0x22 then map_option (\<lambda>(x, r'). (JStr x, r')) (parse_chars r)
          else if c = CHR ''['' then
            (case skip_ws r of
               [] \<Rightarrow> None
             | d # r' \<Rightarrow>
                 if d = CHR '']'' then Some (JArr [], r')
                 else map_option (\<lambda>(xs, r''). (JArr xs, r'')) (parse_elements n r))
          else if c = CHR ''{'' then
            (case skip_ws r of
               [] \<Rightarrow> None
             | d # r' \<Rightarrow>
                 if d = CHR ''}'' then Some (JObj [], r')
                 else map_option (\<lambda>(ms, r''). (JObj ms, r'')) (parse_members n r))
          else parse_number (c # r))"
| "parse_elements 0 s = None"
| "parse_elements (Suc n) s =
     (case parse_value n s of
        None \<Rightarrow> None
      | Some (v, r) \<Rightarrow>
          (case skip_ws r of
             [] \<Rightarrow> None
           | d # r' \<Rightarrow>
               if d = CHR '','' then
                 (case parse_elements n r' of
                    None \<Rightarrow> None
                  | Some (vs, r'') \<Rightarrow> Some (v # vs, r''))
               else if d = CHR '']'' then Some ([v], r')
               else None))"
| "parse_members 0 s = None"
| "parse_members (Suc n) s =
     (case skip_ws s of
        [] \<Rightarrow> None
      | q # r \<Rightarrow>
          if q \<noteq> CHR 0x22 then None
          else
            (case parse_chars r of
               None \<Rightarrow> None
             | Some (k, r1) \<Rightarrow>
                 (case skip_ws r1 of
                    [] \<Rightarrow> None
                  | c # r2 \<Rightarrow>
                      if c \<noteq> CHR '':'' then None
                      else
                        (case parse_value n r2 of
                           None \<Rightarrow> None
                         | Some (v, r3) \<Rightarrow>
                             (case skip_ws r3 of
                                [] \<Rightarrow> None
                              | d # r4 \<Rightarrow>
                                  if d = CHR '','' then
                                    (case parse_members n r4 of
                                       None \<Rightarrow> None
                                     | Some (ms, r5) \<Rightarrow> Some (member_cons k v ms, r5))
                                  else if d = CHR ''}'' then Some ([(k, v)], r4)
                                  else None)))))"

definition JSON_parse :: "string \<Rightarrow> error + json" where
  "JSON_parse text =
     (case parse_value (2 * length text) text of
        None \<Rightarrow> Inl SyntaxError
      | Some (v, r) \<Rightarrow> if skip_ws r = [] then Inr v else Inl SyntaxError)"




definition first_char :: "char \<Rightarrow> bool" where
  "first_char c =
     (c = CHR ''n'' \<or> c = CHR ''t'' \<or> c = CHR ''f'' \<or> c = CHR 0x22 \<or> c = CHR ''['' \<or>
      c = CHR ''{'' \<or> c = CHR ''-'' \<or> is_digit c)"

subsection \<open>Object.setPrototypeOf and the two helpers\<close>

text \<open>
  Modelled from the spec: the "rebind to type" operation of the specification's
  section 6, which the source takes from the runtime as \<^verbatim>\<open>Object.setPrototypeOf\<close>; its
  code is no part of the repository. On \<^verbatim>\<open>null\<close> it throws a \<open>TypeError\<close>; an object
  or array is returned with the given prototype and its own fields as they are; any other
  value is returned as it is, a primitive with no prototype of its own. The prototype
  argument is an object, as the source documents it.
\<close>

datatype 'p js_value = Primitive json | Object json 'p

definition is_object :: "json \<Rightarrow> bool" where
  "is_object v = (case v of JArr xs \<Rightarrow> True | JObj ms \<Rightarrow> True | other \<Rightarrow> False)"

definition setPrototypeOf :: "json \<Rightarrow> 'p \<Rightarrow> error + 'p js_value" where
  "setPrototypeOf obj proto =
     (if obj = JNull then Inl TypeError
      else if is_object obj then Inr (Object obj proto)
      else Inr (Primitive obj))"


definition fromJSON :: "'p \<Rightarrow> string \<Rightarrow> error + 'p js_value" where
  "fromJSON proto json =
     (case JSON_parse json of
        Inl e \<Rightarrow> Inl e
      | Inr v \<Rightarrow> setPrototypeOf v proto)"

text \<open>
  \<open>Rectangle.prototype\<close>, which holds \<open>getArea\<close>, and \<open>Object.prototype\<close>, which does
  not. \<open>own_fields\<close> is what \<^verbatim>\<open>new Rectangle(w, h)\<close> holds itself: \<open>width\<close> and
  \<open>height\<close>, in the order of the constructor's assignments. \<open>call_getArea x\<close> is
  \<^verbatim>\<open>x.getArea()\<close>: the method is found through the prototype and multiplies the two
  fields it reads from the object; without the method the call is a \<open>TypeError\<close>.
  \<open>to_number\<close> is the conversion of an operand of \<open>*\<close>: a number is itself, \<^verbatim>\<open>null\<close>
  is 0, \<^verbatim>\<open>true\<close> is 1 and \<^verbatim>\<open>false\<close> 0; the other conversions are not followed here
  and give \<open>None\<close>.
\<close>

datatype prototype = Rectangle_prototype | Object_prototype






section \<open>toString, stringify and the combinator\<close>

lemma foldl_reduce:
  "foldl (\<lambda>prev curr. prev @ before @ curr @ after) acc xs =
   acc @ concat (map (\<lambda>x. before @ x @ after) xs)"
  by (induction xs arbitrary: acc) simp_all

lemma toString_Arr:
  "toString (Arr xs) before after = Inr (concat (map (\<lambda>x. before @ x @ after) xs))"
  by (simp add: toString_def falsy_def isArray_def reduce_def foldl_reduce)

lemma toString_item_of:
  "toString (item_of x) before [] = Inr (shown before x)"
  by (cases x)
    (simp_all add: toString_def item_of_def falsy_def isArray_def reduce_def shown_def)

lemma stringify_eq:
  "stringify this =
   Inr (shown [] (elementItem this) @ shown ''#'' (idItem this) @
        concat (map (\<lambda>v. ''.'' @ v) (classItems this)) @
        concat (map (\<lambda>v. ''['' @ v @ '']'') (attrItems this)) @
        concat (map (\<lambda>v. '':'' @ v) (pseudoClassItems this)) @
        shown ''::'' (pseudoElementItem this))"
  by (simp add: stringify_def toString_Arr toString_item_of str_plus_def)

lemma toString_total: "\<exists>str. toString x before after = Inr str"
  by (cases x) (simp_all add: toString_def falsy_def isArray_def reduce_def)

lemma stringify_sel_total: "\<exists>str. stringify_sel sel = Inr str"
  by (induction sel) (auto simp: stringify_eq str_plus_def)

text \<open>
  C7. \<open>stringify()\<close> on any simple or combined selector never raises, whatever state
  the selector holds (a freshly constructed one gives the empty string), and
  \<open>combine\<close> takes any two selector-like operands and any combinator string.
\<close>

theorem stringify_never_raises:
  "(\<exists>str. stringify this = Inr str) \<and>
   stringify CssSelector = Inr [] \<and>
   (\<exists>str. stringify_sel sel = Inr str) \<and>
   (\<exists>str. stringify_sel (combine s1 c s2) = Inr str)"
  using stringify_sel_total [of sel] stringify_sel_total [of "combine s1 c s2"]
  by (simp add: stringify_eq CssSelector_def shown_def)

text \<open>
  C3. For selector-like values \<open>s1\<close>, \<open>s2\<close> and any combinator string \<open>c\<close>,
  \<open>combine(s1, c, s2).stringify()\<close> is \<open>s1.stringify() + " " + c + " " +
  s2.stringify()\<close>; the symbol is echoed as given, and combined selectors nest, left to
  right, with one space on each side of each symbol.
\<close>

theorem combine_stringify:
  "\<exists>a b d.
     stringify_sel s1 = Inr a \<and> stringify_sel s2 = Inr b \<and> stringify_sel s3 = Inr d \<and>
     stringify_sel (combine s1 c s2) = Inr (a @ '' '' @ c @ '' '' @ b) \<and>
     stringify_sel (combine (combine s1 c s2) c' s3) =
       Inr (a @ '' '' @ c @ '' '' @ b @ '' '' @ c' @ '' '' @ d) \<and>
     stringify_sel (combine s1 c (combine s2 c' s3)) =
       Inr (a @ '' '' @ c @ '' '' @ b @ '' '' @ c' @ '' '' @ d)"
proof -
  obtain a where a: "stringify_sel s1 = Inr a"
    using stringify_sel_total by blast
  obtain b where b: "stringify_sel s2 = Inr b"
    using stringify_sel_total by blast
  obtain d where d: "stringify_sel s3 = Inr d"
    using stringify_sel_total by blast
  show ?thesis
    by (simp add: a b d combine_def str_plus_def)
qed

section \<open>Sequences of selector-part calls\<close>

lemma indexOf_lower: "- 1 \<le> indexOf xs x"
  by (induction xs) (simp_all add: Let_def)

lemma indexOf_absent: "(indexOf xs x = - 1) = (x \<notin> set xs)"
proof (induction xs)
  case Nil
  show ?case by simp
next
  case (Cons y ys)
  have "indexOf ys x + 1 \<noteq> - 1"
    using indexOf_lower [of ys x] by arith
  with Cons show ?case
    by (auto simp: Let_def)
qed

lemma checkRules_eq:
  assumes "multipleDataItem this = [3, 4, 5]"
  shows "checkRules this k =
    (if rank this = k \<and> k \<noteq> 3 \<and> k \<noteq> 4 \<and> k \<noteq> 5 then Some (Error occur_message)
     else if k < rank this then Some (Error order_message)
     else None)"
  using assms by (auto simp: checkRules_def indexOf_absent)

lemmas method_defs =
  element_def id_part_def class_part_def attr_def pseudoClass_def pseudoElement_def

lemmas eval_defs = method_defs checkRules_def CssSelector_def

text \<open>Each entry point of the facade is the first call of a chain on a fresh object.\<close>

lemma facade_first_call:
  "builder_element v = call CssSelector (ElementCall v)"
  "builder_id v = call CssSelector (IdCall v)"
  "builder_class v = call CssSelector (ClassCall v)"
  "builder_attr v = call CssSelector (AttrCall v)"
  "builder_pseudoClass v = call CssSelector (PseudoClassCall v)"
  "builder_pseudoElement v = call CssSelector (PseudoElementCall v)"
  by (simp_all add: builder_element_def builder_id_def builder_class_def builder_attr_def
      builder_pseudoClass_def builder_pseudoElement_def)

lemma facade_returns: "fst (call CssSelector p) = None"
  by (cases p) (simp_all add: eval_defs)

lemma call_throws_unchanged:
  "fst (call this p) = Some e \<Longrightarrow> snd (call this p) = this"
  by (cases p) (auto simp: method_defs split: option.splits)

lemma call_returns:
  assumes "multipleDataItem this = [3, 4, 5]"
  shows "(fst (call this p) = None) =
         (rank this < stage p \<or> (rank this = stage p \<and> multi_valued p))"
  using assms by (cases p) (auto simp: method_defs checkRules_eq)

lemma call_result:
  assumes "fst (call this p) = None"
  shows "rank (snd (call this p)) = stage p"
    and "multipleDataItem (snd (call this p)) = multipleDataItem this"
  using assms by (cases p; auto simp: method_defs split: option.splits)+

lemma values_of_append:
  "values_of k (ps @ qs) = values_of k ps @ values_of k qs"
  by (simp add: values_of_def)

lemma values_of_one:
  "values_of k [p] = (if stage p = k then [argument p] else [])"
  by (simp add: values_of_def)

lemma values_of_below:
  "list_all (\<lambda>q. stage q \<le> r) ps \<Longrightarrow> r < k \<Longrightarrow> values_of k ps = []"
  by (induction ps) (auto simp: values_of_def)

lemma last_stage_snoc: "last_stage (ps @ [p]) = stage p"
  by (simp add: last_stage_def)

lemma tracks_new: "tracks CssSelector []"
  by (simp add: tracks_def CssSelector_def last_stage_def values_of_def only_def)

lemma tracks_call:
  assumes t: "tracks this ps" and ok: "fst (call this p) = None"
  shows "tracks (snd (call this p)) (ps @ [p])"
proof -
  have m: "multipleDataItem this = [3, 4, 5]"
    and all: "list_all (\<lambda>q. stage q \<le> rank this) ps"
    and srt: "sorted (map stage ps)"
    using t unfolding tracks_def by blast+
  have le: "rank this < stage p \<or> (rank this = stage p \<and> multi_valued p)"
    using call_returns [OF m, of p] ok by simp
  then have le': "rank this \<le> stage p" by auto
  have below: "\<And>q. q \<in> set ps \<Longrightarrow> stage q \<le> stage p"
    using all le' by (auto simp: list_all_iff)
  have e: "stage p = k \<Longrightarrow> \<not> multi_valued p \<Longrightarrow> values_of k ps = []" for k
    using le values_of_below [OF all, of k] by auto
  have s: "sorted (map stage (ps @ [p]))"
    using srt below by (simp add: sorted_append)
  have a: "list_all (\<lambda>q. stage q \<le> stage p) (ps @ [p])"
    using below by (simp add: list_all_iff)
  show ?thesis
  proof (cases p)
    case (ElementCall v)
    with t ok e [of 1] s a show ?thesis
      by (auto simp: tracks_def method_defs values_of_append values_of_one last_stage_snoc
          only_def split: option.splits)
  next
    case (IdCall v)
    with t ok e [of 2] s a show ?thesis
      by (auto simp: tracks_def method_defs values_of_append values_of_one last_stage_snoc
          only_def split: option.splits)
  next
    case (ClassCall v)
    with t ok s a show ?thesis
      by (auto simp: tracks_def method_defs values_of_append values_of_one last_stage_snoc
          only_def split: option.splits)
  next
    case (AttrCall v)
    with t ok s a show ?thesis
      by (auto simp: tracks_def method_defs values_of_append values_of_one last_stage_snoc
          only_def split: option.splits)
  next
    case (PseudoClassCall v)
    with t ok s a show ?thesis
      by (auto simp: tracks_def method_defs values_of_append values_of_one last_stage_snoc
          only_def split: option.splits)
  next
    case (PseudoElementCall v)
    with t ok e [of 6] s a show ?thesis
      by (auto simp: tracks_def method_defs values_of_append values_of_one last_stage_snoc
          only_def split: option.splits)
  qed
qed

lemma tracks_attempts:
  "tracks this rs \<Longrightarrow> tracks (attempts this h) (rs @ recorded this h)"
proof (induction h arbitrary: this rs)
  case Nil
  then show ?case by simp
next
  case (Cons p h)
  show ?case
  proof (cases "fst (call this p)")
    case None
    have "tracks (snd (call this p)) (rs @ [p])"
      using Cons.prems None by (rule tracks_call)
    from Cons.IH [OF this] None show ?thesis
      by (simp add: split_beta)
  next
    case (Some e)
    then have "snd (call this p) = this"
      by (rule call_throws_unchanged)
    with Cons.IH [OF Cons.prems] Some show ?thesis
      by (simp add: split_beta)
  qed
qed

lemma tracks_built: "tracks (attempts CssSelector h) (recorded CssSelector h)"
  using tracks_attempts [OF tracks_new, of h] by simp

lemma chain_calls_attempts:
  "chain_calls this ps = Inr this' \<Longrightarrow> attempts this ps = this' \<and> recorded this ps = ps"
  by (induction ps arbitrary: this) (auto split: prod.splits option.splits)

lemma shown_only:
  "length vs \<le> 1 \<Longrightarrow> shown before (only vs) = concat (map (\<lambda>v. before @ v) (nonempty vs))"
  by (cases vs) (auto simp: shown_def only_def nonempty_def)

lemma stringify_tracks:
  assumes "tracks this ps"
  shows "stringify this = Inr (spec_stringify_nonempty ps)"
proof -
  have "shown [] (elementItem this) = concat (nonempty (values_of 1 ps))"
    using assms shown_only [of "values_of 1 ps" "[]"] by (simp add: tracks_def)
  moreover have "shown ''#'' (idItem this) =
      concat (map (\<lambda>v. ''#'' @ v) (nonempty (values_of 2 ps)))"
    using assms shown_only [of "values_of 2 ps" "''#''"] by (simp add: tracks_def)
  moreover have "shown ''::'' (pseudoElementItem this) =
      concat (map (\<lambda>v. ''::'' @ v) (nonempty (values_of 6 ps)))"
    using assms shown_only [of "values_of 6 ps" "''::''"] by (simp add: tracks_def)
  moreover have "classItems this = values_of 3 ps" "attrItems this = values_of 4 ps"
    "pseudoClassItems this = values_of 5 ps"
    using assms by (simp_all add: tracks_def)
  ultimately show ?thesis
    by (simp add: stringify_eq spec_stringify_nonempty_def)
qed

text \<open>
  C1 (as amended). For every sequence of selector-part calls on a fresh selector that
  all return, \<open>stringify()\<close> gives the parts in the fixed category order: the element
  verbatim, \<open>#\<close> and the id, \<open>.\<close> and each class in call order, each attribute in
  brackets, \<open>:\<close> and each pseudo-class, \<open>::\<close> and the pseudo-element; a singleton
  part that was not given, or was given as the empty string, and an empty sequence
  contribute nothing.
\<close>

theorem stringify_fixed_order:
  assumes "chain_calls CssSelector ps = Inr this"
  shows "stringify this = Inr (spec_stringify_nonempty ps)"
proof -
  have "attempts CssSelector ps = this" "recorded CssSelector ps = ps"
    using chain_calls_attempts [OF assms] by simp_all
  with tracks_built [of ps] have "tracks this ps" by simp
  then show ?thesis by (rule stringify_tracks)
qed

theorem stringify_fixed_order_witness:
  \<open>chain_calls CssSelector
     [ElementCall ''a'', AttrCall ''href$=".png"'', PseudoClassCall ''focus''] =
     Inr \<lparr>elementItem = Some ''a'', idItem = None, classItems = [],
       attrItems = [''href$=".png"''], pseudoClassItems = [''focus''],
       pseudoElementItem = None, multipleDataItem = [3, 4, 5], rank = 5\<rparr> \<and>
   stringify \<lparr>elementItem = Some ''a'', idItem = None, classItems = [],
       attrItems = [''href$=".png"''], pseudoClassItems = [''focus''],
       pseudoElementItem = None, multipleDataItem = [3, 4, 5], rank = 5\<rparr> =
     Inr ''a[href$=".png"]:focus''\<close>
proof -
  have c: \<open>chain_calls CssSelector
     [ElementCall ''a'', AttrCall ''href$=".png"'', PseudoClassCall ''focus''] =
     Inr \<lparr>elementItem = Some ''a'', idItem = None, classItems = [],
       attrItems = [''href$=".png"''], pseudoClassItems = [''focus''],
       pseudoElementItem = None, multipleDataItem = [3, 4, 5], rank = 5\<rparr>\<close>
    by (simp add: eval_defs)
  show ?thesis
    using c stringify_fixed_order [OF c]
    by (simp add: spec_stringify_nonempty_def values_of_def nonempty_def)
qed

text \<open>
  C1 as it is worded fails at \<open>id('')\<close>: the chain returns, the wording gives \<open>#\<close>,
  and \<open>stringify()\<close> gives the empty string.
\<close>

theorem stringify_empty_id_counterexample:
  "chain_calls CssSelector [IdCall []] =
     Inr \<lparr>elementItem = None, idItem = Some [], classItems = [], attrItems = [],
       pseudoClassItems = [], pseudoElementItem = None, multipleDataItem = [3, 4, 5],
       rank = 2\<rparr> \<and>
   stringify \<lparr>elementItem = None, idItem = Some [], classItems = [], attrItems = [],
       pseudoClassItems = [], pseudoElementItem = None, multipleDataItem = [3, 4, 5],
       rank = 2\<rparr> = Inr [] \<and>
   spec_stringify [IdCall []] = ''#''"
  by (simp add: eval_defs stringify_eq shown_def spec_stringify_def values_of_def)

lemma singleton_not_multi: "singleton_category p = (\<not> multi_valued p)"
  by (cases p) simp_all

lemma stage_pos: "0 < stage p"
  by (cases p) simp_all

lemma call_error:
  "fst (call this p) \<in> {None, Some (Error occur_message), Some (Error order_message)}"
  by (cases p) (auto simp: method_defs checkRules_def split: option.splits)

text \<open>
  C2. A selector-part call raises exactly when (a) its category is a singleton one
  (element, id, pseudo-element) that was already set on this selector, or (b) its
  category is strictly earlier than the one most recently recorded; otherwise it
  returns. What it raises is the one \<open>Error\<close> kind, with one of the two messages. The
  selector is a fresh one after any calls \<open>h\<close>, those that threw included.
\<close>

theorem raises_iff:
  "(fst (call (attempts CssSelector h) p) \<noteq> None) = spec_raises (recorded CssSelector h) p \<and>
   fst (call (attempts CssSelector h) p) \<in>
     {None, Some (Error occur_message), Some (Error order_message)}"
proof -
  let ?s = "attempts CssSelector h" and ?rs = "recorded CssSelector h"
  have t: "tracks ?s ?rs" by (rule tracks_built)
  then have m: "multipleDataItem ?s = [3, 4, 5]"
    and r: "rank ?s = last_stage ?rs"
    and all: "list_all (\<lambda>q. stage q \<le> rank ?s) ?rs"
    unfolding tracks_def by blast+
  have code: "(fst (call ?s p) \<noteq> None) =
      (stage p < rank ?s \<or> (stage p = rank ?s \<and> singleton_category p))"
    using call_returns [OF m, of p] by (auto simp: singleton_not_multi)
  have "spec_raises ?rs p =
      (stage p < rank ?s \<or> (stage p = rank ?s \<and> singleton_category p))"
  proof (cases "stage p < rank ?s")
    case True
    then show ?thesis by (simp add: spec_raises_def r)
  next
    case False
    show ?thesis
    proof (cases "stage p = rank ?s")
      case True
      then have "?rs \<noteq> []"
        using stage_pos [of p] r by (auto simp: last_stage_def)
      then have "stage p \<in> set (map stage ?rs)"
        using True r by (auto simp: last_stage_def)
      with True show ?thesis by (simp add: spec_raises_def r [symmetric])
    next
      case neq: False
      have "stage p \<notin> set (map stage ?rs)"
        using all False neq by (auto simp: list_all_iff)
      with False neq show ?thesis by (simp add: spec_raises_def r [symmetric])
    qed
  qed
  with code call_error show ?thesis by simp
qed

theorem raises_iff_witness:
  "fst (call (attempts CssSelector [ElementCall ''a'']) (ElementCall ''div'')) =
     Some (Error occur_message) \<and>
   spec_raises (recorded CssSelector [ElementCall ''a'']) (ElementCall ''div'') \<and>
   fst (call (attempts CssSelector [ClassCall ''y'']) (IdCall ''x'')) =
     Some (Error order_message) \<and>
   spec_raises (recorded CssSelector [ClassCall ''y'']) (IdCall ''x'') \<and>
   fst (call (attempts CssSelector [ClassCall ''y'']) (ClassCall ''z'')) = None \<and>
   \<not> spec_raises (recorded CssSelector [ClassCall ''y'']) (ClassCall ''z'')"
  using raises_iff [of "[ElementCall ''a'']" "ElementCall ''div''"]
    raises_iff [of "[ClassCall ''y'']" "IdCall ''x''"]
    raises_iff [of "[ClassCall ''y'']" "ClassCall ''z''"]
  by (simp add: eval_defs)

text \<open>
  C5. When a selector-part call raises, the object is exactly what it was before the call
  (no field and no rank is changed), so every later call, chain and \<open>stringify()\<close>
  behaves as it would have on the object before the failing call.
\<close>

theorem throw_leaves_state:
  assumes "fst (call this p) = Some e"
  shows "snd (call this p) = this \<and>
    call (snd (call this p)) q = call this q \<and>
    chain_calls (snd (call this p)) qs = chain_calls this qs \<and>
    attempts this (p # qs) = attempts this qs \<and>
    stringify (snd (call this p)) = stringify this"
  using call_throws_unchanged [OF assms] by simp

theorem throw_leaves_state_witness:
  "fst (call (attempts CssSelector [ElementCall ''div'', IdCall ''main''])
     (ElementCall ''p'')) = Some (Error order_message) \<and>
   snd (call (attempts CssSelector [ElementCall ''div'', IdCall ''main''])
     (ElementCall ''p'')) = attempts CssSelector [ElementCall ''div'', IdCall ''main''] \<and>
   chain_calls (snd (call (attempts CssSelector [ElementCall ''div'', IdCall ''main''])
     (ElementCall ''p''))) [ClassCall ''x''] =
   chain_calls (attempts CssSelector [ElementCall ''div'', IdCall ''main''])
     [ClassCall ''x'']"
proof -
  have h: "fst (call (attempts CssSelector [ElementCall ''div'', IdCall ''main''])
     (ElementCall ''p'')) = Some (Error order_message)"
    by (simp add: eval_defs)
  show ?thesis
    using h throw_leaves_state [OF h, of "ElementCall ''p''" "[ClassCall ''x'']"] by simp
qed

lemma call_rank_mono:
  assumes "multipleDataItem this = [3, 4, 5]"
  shows "multipleDataItem (snd (call this p)) = [3, 4, 5] \<and> rank this \<le> rank (snd (call this p))"
proof (cases "fst (call this p)")
  case None
  with call_result [OF None] call_returns [OF assms, of p] assms show ?thesis by auto
next
  case (Some e)
  with call_throws_unchanged [OF Some] assms show ?thesis by simp
qed

lemma rank_trace_sorted:
  "multipleDataItem this = [3, 4, 5] \<Longrightarrow>
   sorted (rank_trace this h) \<and> list_all (\<lambda>r. rank this \<le> r) (rank_trace this h)"
proof (induction h arbitrary: this)
  case Nil
  show ?case by simp
next
  case (Cons p h)
  have m: "multipleDataItem (snd (call this p)) = [3, 4, 5]"
    and le: "rank this \<le> rank (snd (call this p))"
    using call_rank_mono [OF Cons.prems, of p] by simp_all
  from Cons.IH [OF m] le show ?case
    by (auto simp: list_all_iff)
qed

text \<open>
  C6. The rank starts at \<open>0\<close> ("none", below every category); a call that returns
  either moves the rank to a strictly later category or repeats the current
  multi-valued one, and along any sequence of calls the rank never decreases.
\<close>

theorem rank_never_decreases:
  assumes "call (attempts CssSelector h) p = (None, this')"
  shows "rank CssSelector = 0 \<and> 0 < stage p \<and>
    rank this' = stage p \<and>
    (rank (attempts CssSelector h) < rank this' \<or>
     (rank this' = rank (attempts CssSelector h) \<and> multi_valued p)) \<and>
    sorted (rank_trace CssSelector (h @ [p])) \<and>
    sorted (map stage (recorded CssSelector (h @ [p]))) \<and>
    rank (attempts CssSelector h) = last_stage (recorded CssSelector h)"
proof -
  let ?s = "attempts CssSelector h"
  have t: "tracks ?s (recorded CssSelector h)" by (rule tracks_built)
  then have m: "multipleDataItem ?s = [3, 4, 5]"
    and r: "rank ?s = last_stage (recorded CssSelector h)"
    unfolding tracks_def by blast+
  have ok: "fst (call ?s p) = None" and s': "snd (call ?s p) = this'"
    using assms by simp_all
  have step: "rank ?s < stage p \<or> (rank ?s = stage p \<and> multi_valued p)"
    using call_returns [OF m, of p] ok by simp
  have rk: "rank this' = stage p"
    using call_result(1) [OF ok] s' by simp
  have "multipleDataItem CssSelector = [3, 4, 5]"
    by (simp add: CssSelector_def)
  then have tr: "sorted (rank_trace CssSelector (h @ [p]))"
    using rank_trace_sorted by blast
  have "tracks (attempts CssSelector (h @ [p])) (recorded CssSelector (h @ [p]))"
    by (rule tracks_built)
  then have srt: "sorted (map stage (recorded CssSelector (h @ [p])))"
    unfolding tracks_def by blast
  show ?thesis
    using step rk tr srt r stage_pos [of p] by (auto simp: CssSelector_def)
qed

theorem rank_never_decreases_witness:
  "call (attempts CssSelector [ElementCall ''div'', ClassCall ''a'', IdCall ''main''])
     (ClassCall ''b'') =
     (None, \<lparr>elementItem = Some ''div'', idItem = None, classItems = [''a'', ''b''],
       attrItems = [], pseudoClassItems = [], pseudoElementItem = None,
       multipleDataItem = [3, 4, 5], rank = 3\<rparr>) \<and>
   rank (attempts CssSelector [ElementCall ''div'', ClassCall ''a'', IdCall ''main'']) = 3 \<and>
   multi_valued (ClassCall ''b'') \<and>
   rank_trace CssSelector
     [ElementCall ''div'', ClassCall ''a'', IdCall ''main'', ClassCall ''b''] =
     [0, 1, 3, 3, 3] \<and>
   sorted (rank_trace CssSelector
     ([ElementCall ''div'', ClassCall ''a'', IdCall ''main''] @ [ClassCall ''b'']))"
proof -
  have c: "call (attempts CssSelector [ElementCall ''div'', ClassCall ''a'', IdCall ''main''])
     (ClassCall ''b'') =
     (None, \<lparr>elementItem = Some ''div'', idItem = None, classItems = [''a'', ''b''],
       attrItems = [], pseudoClassItems = [], pseudoElementItem = None,
       multipleDataItem = [3, 4, 5], rank = 3\<rparr>)"
    by (simp add: eval_defs)
  have tr: "rank_trace CssSelector
     [ElementCall ''div'', ClassCall ''a'', IdCall ''main'', ClassCall ''b''] =
     [0, 1, 3, 3, 3]"
    by (simp add: eval_defs)
  show ?thesis
    using c tr rank_never_decreases [OF c] by (simp add: eval_defs)
qed

lemma multi_valued_stage: "multi_valued p = (stage p = 3 \<or> stage p = 4 \<or> stage p = 5)"
  by (cases p) simp_all

lemma repeat_returns:
  assumes "multipleDataItem this = [3, 4, 5]"
    and "rank this = 3 \<or> rank this = 4 \<or> rank this = 5"
    and "list_all (\<lambda>q. stage q = rank this) qs"
  shows "chain_calls this qs = Inr (attempts this qs) \<and> recorded this qs = qs \<and>
    rank (attempts this qs) = rank this"
  using assms
proof (induction qs arbitrary: this)
  case Nil
  show ?case by simp
next
  case (Cons q qs)
  have q: "stage q = rank this" and qs: "list_all (\<lambda>q. stage q = rank this) qs"
    using Cons.prems(3) by simp_all
  have "multi_valued q"
    using Cons.prems(2) q by (simp add: multi_valued_stage)
  then have ok: "fst (call this q) = None"
    using call_returns [OF Cons.prems(1), of q] q by simp
  have r: "rank (snd (call this q)) = rank this"
    and m: "multipleDataItem (snd (call this q)) = [3, 4, 5]"
    using call_result [OF ok] q Cons.prems(1) by simp_all
  have "chain_calls (snd (call this q)) qs = Inr (attempts (snd (call this q)) qs) \<and>
    recorded (snd (call this q)) qs = qs \<and>
    rank (attempts (snd (call this q)) qs) = rank (snd (call this q))"
    using Cons.IH [OF m] Cons.prems(2) qs r by simp
  with ok r show ?case
    by (simp add: split_beta)
qed

lemma values_of_other:
  "list_all (\<lambda>q. stage q = r) qs \<Longrightarrow> k \<noteq> r \<Longrightarrow> values_of k qs = []"
  by (induction qs) (auto simp: values_of_def)

lemma values_of_same:
  "list_all (\<lambda>q. stage q = r) qs \<Longrightarrow> values_of r qs = map argument qs"
  by (induction qs) (auto simp: values_of_def)

lemma class_text:
  "list_all (\<lambda>q. stage q = 3) qs \<Longrightarrow>
   concat (map (\<lambda>v. ''.'' @ v) (map argument qs)) = concat (map part_text qs)"
proof (induction qs)
  case Nil
  show ?case by simp
next
  case (Cons q qs)
  then show ?case by (cases q) simp_all
qed

lemma attr_text:
  "list_all (\<lambda>q. stage q = 4) qs \<Longrightarrow>
   concat (map (\<lambda>v. ''['' @ v @ '']'') (map argument qs)) = concat (map part_text qs)"
proof (induction qs)
  case Nil
  show ?case by simp
next
  case (Cons q qs)
  then show ?case by (cases q) simp_all
qed

lemma pseudoClass_text:
  "list_all (\<lambda>q. stage q = 5) qs \<Longrightarrow>
   concat (map (\<lambda>v. '':'' @ v) (map argument qs)) = concat (map part_text qs)"
proof (induction qs)
  case Nil
  show ?case by simp
next
  case (Cons q qs)
  then show ?case by (cases q) simp_all
qed

lemma spec_stringify_nonempty_repeat:
  assumes rs: "list_all (\<lambda>q. stage q \<le> r) rs"
    and qs: "list_all (\<lambda>q. stage q = r) qs"
    and r: "r = 3 \<or> r = 4 \<or> r = 5"
  shows "spec_stringify_nonempty (rs @ qs) =
    spec_stringify_nonempty rs @ concat (map part_text qs)"
proof -
  note other = values_of_other [OF qs] and below = values_of_below [OF rs]
    and same = values_of_same [OF qs]
  from r consider "r = 3" | "r = 4" | "r = 5" by blast
  then show ?thesis
  proof cases
    case 1
    have "values_of 1 qs = []" "values_of 2 qs = []" "values_of 4 qs = []"
      "values_of 5 qs = []" "values_of 6 qs = []"
      "values_of 4 rs = []" "values_of 5 rs = []" "values_of 6 rs = []"
      using other below 1 by simp_all
    moreover have "values_of 3 qs = map argument qs"
      using same 1 by simp
    ultimately show ?thesis
      using class_text [of qs] qs 1
      by (simp add: spec_stringify_nonempty_def values_of_append nonempty_def)
  next
    case 2
    have "values_of 1 qs = []" "values_of 2 qs = []" "values_of 3 qs = []"
      "values_of 5 qs = []" "values_of 6 qs = []"
      "values_of 5 rs = []" "values_of 6 rs = []"
      using other below 2 by simp_all
    moreover have "values_of 4 qs = map argument qs"
      using same 2 by simp
    ultimately show ?thesis
      using attr_text [of qs] qs 2
      by (simp add: spec_stringify_nonempty_def values_of_append nonempty_def)
  next
    case 3
    have "values_of 1 qs = []" "values_of 2 qs = []" "values_of 3 qs = []"
      "values_of 4 qs = []" "values_of 6 qs = []"
      "values_of 6 rs = []"
      using other below 3 by simp_all
    moreover have "values_of 5 qs = map argument qs"
      using same 3 by simp
    ultimately show ?thesis
      using pseudoClass_text [of qs] qs 3
      by (simp add: spec_stringify_nonempty_def values_of_append nonempty_def)
  qed
qed

text \<open>
  C4. On a selector whose most recently recorded category is a multi-valued one
  (class 3, attribute 4, pseudo-class 5), any number of further calls \<open>qs\<close> of that
  same category all return, each value is appended to the category's sequence whatever it
  is (\<open>map argument qs\<close>, in call order, duplicates kept), nothing else changes, and
  \<open>stringify()\<close> is the output before followed by the text of those values in call
  order.
\<close>

theorem multi_valued_repeats:
  assumes r: "last_stage (recorded CssSelector h) = 3 \<or>
      last_stage (recorded CssSelector h) = 4 \<or>
      last_stage (recorded CssSelector h) = 5"
    and qs: "list_all (\<lambda>q. stage q = last_stage (recorded CssSelector h)) qs"
  shows "\<exists>this' str.
    chain_calls (attempts CssSelector h) qs = Inr this' \<and>
    rank (attempts CssSelector h) = last_stage (recorded CssSelector h) \<and>
    rank this' = last_stage (recorded CssSelector h) \<and>
    values_of (last_stage (recorded CssSelector h)) qs = map argument qs \<and>
    classItems (attempts CssSelector h) = values_of 3 (recorded CssSelector h) \<and>
    attrItems (attempts CssSelector h) = values_of 4 (recorded CssSelector h) \<and>
    pseudoClassItems (attempts CssSelector h) = values_of 5 (recorded CssSelector h) \<and>
    classItems this' = classItems (attempts CssSelector h) @ values_of 3 qs \<and>
    attrItems this' = attrItems (attempts CssSelector h) @ values_of 4 qs \<and>
    pseudoClassItems this' = pseudoClassItems (attempts CssSelector h) @ values_of 5 qs \<and>
    elementItem this' = elementItem (attempts CssSelector h) \<and>
    idItem this' = idItem (attempts CssSelector h) \<and>
    pseudoElementItem this' = pseudoElementItem (attempts CssSelector h) \<and>
    stringify (attempts CssSelector h) = Inr str \<and>
    stringify this' = Inr (str @ concat (map part_text qs))"
proof -
  let ?s = "attempts CssSelector h" and ?rs = "recorded CssSelector h"
  let ?s' = "attempts ?s qs"
  have t: "tracks ?s ?rs" by (rule tracks_built)
  then have m: "multipleDataItem ?s = [3, 4, 5]"
    and rk0: "rank ?s = last_stage ?rs"
    and all: "list_all (\<lambda>q. stage q \<le> rank ?s) ?rs"
    unfolding tracks_def by blast+
  have r': "rank ?s = 3 \<or> rank ?s = 4 \<or> rank ?s = 5"
    using r rk0 by simp
  have qs': "list_all (\<lambda>q. stage q = rank ?s) qs"
    using qs rk0 by simp
  have run: "chain_calls ?s qs = Inr ?s'" and rec: "recorded ?s qs = qs"
    and rk: "rank ?s' = rank ?s"
    using repeat_returns [OF m r' qs'] by simp_all
  have t': "tracks ?s' (?rs @ qs)"
    using tracks_attempts [OF t, of qs] rec by simp
  have other: "values_of 1 qs = []" "values_of 2 qs = []" "values_of 6 qs = []"
    using values_of_other [OF qs'] r' by auto
  have before:
    "classItems ?s = values_of 3 ?rs"
    "attrItems ?s = values_of 4 ?rs"
    "pseudoClassItems ?s = values_of 5 ?rs"
    using t by (simp_all add: tracks_def)
  have fields:
    "classItems ?s' = classItems ?s @ values_of 3 qs"
    "attrItems ?s' = attrItems ?s @ values_of 4 qs"
    "pseudoClassItems ?s' = pseudoClassItems ?s @ values_of 5 qs"
    "elementItem ?s' = elementItem ?s"
    "idItem ?s' = idItem ?s"
    "pseudoElementItem ?s' = pseudoElementItem ?s"
    using t t' other by (simp_all add: tracks_def values_of_append)
  have str: "stringify ?s = Inr (spec_stringify_nonempty ?rs)"
    using t by (rule stringify_tracks)
  have "stringify ?s' = Inr (spec_stringify_nonempty (?rs @ qs))"
    using t' by (rule stringify_tracks)
  then have str': "stringify ?s' =
      Inr (spec_stringify_nonempty ?rs @ concat (map part_text qs))"
    using spec_stringify_nonempty_repeat [OF all qs' r'] by simp
  have same: "values_of (last_stage ?rs) qs = map argument qs"
    using values_of_same [OF qs] .
  have rk': "rank ?s' = last_stage ?rs"
    using rk rk0 by simp
  show ?thesis
    using run rk0 rk' same before fields str str' by blast
qed

theorem multi_valued_repeats_witness:
  "(last_stage (recorded CssSelector [IdCall ''main'', ClassCall ''container'']) = 3 \<and>
    list_all (\<lambda>q. stage q =
        last_stage (recorded CssSelector [IdCall ''main'', ClassCall ''container'']))
      [ClassCall ''editable'', ClassCall ''container''] \<and>
    (\<exists>this'. chain_calls (attempts CssSelector [IdCall ''main'', ClassCall ''container''])
        [ClassCall ''editable'', ClassCall ''container''] = Inr this' \<and>
      classItems this' = [''container'', ''editable'', ''container''] \<and>
      stringify this' = Inr ''#main.container.editable.container'')) \<and>
   (last_stage (recorded CssSelector [ElementCall ''a'', AttrCall ''href'']) = 4 \<and>
    list_all (\<lambda>q. stage q =
        last_stage (recorded CssSelector [ElementCall ''a'', AttrCall ''href'']))
      [AttrCall ''x'', AttrCall ''x''] \<and>
    (\<exists>this'. chain_calls (attempts CssSelector [ElementCall ''a'', AttrCall ''href''])
        [AttrCall ''x'', AttrCall ''x''] = Inr this' \<and>
      attrItems this' = [''href'', ''x'', ''x''] \<and>
      stringify this' = Inr ''a[href][x][x]'')) \<and>
   (last_stage (recorded CssSelector [ElementCall ''a'', PseudoClassCall ''hover'']) = 5 \<and>
    list_all (\<lambda>q. stage q =
        last_stage (recorded CssSelector [ElementCall ''a'', PseudoClassCall ''hover'']))
      [PseudoClassCall ''focus'', PseudoClassCall ''hover''] \<and>
    (\<exists>this'. chain_calls (attempts CssSelector [ElementCall ''a'', PseudoClassCall ''hover''])
        [PseudoClassCall ''focus'', PseudoClassCall ''hover''] = Inr this' \<and>
      pseudoClassItems this' = [''hover'', ''focus'', ''hover''] \<and>
      stringify this' = Inr ''a:hover:focus:hover''))"
proof -
  let ?h3 = "[IdCall ''main'', ClassCall ''container'']"
  let ?q3 = "[ClassCall ''editable'', ClassCall ''container'']"
  let ?h4 = "[ElementCall ''a'', AttrCall ''href'']"
  let ?q4 = "[AttrCall ''x'', AttrCall ''x'']"
  let ?h5 = "[ElementCall ''a'', PseudoClassCall ''hover'']"
  let ?q5 = "[PseudoClassCall ''focus'', PseudoClassCall ''hover'']"
  have r3: "recorded CssSelector ?h3 = ?h3"
    and r4: "recorded CssSelector ?h4 = ?h4"
    and r5: "recorded CssSelector ?h5 = ?h5"
    by (simp_all add: eval_defs)
  have l3: "last_stage (recorded CssSelector ?h3) = 3"
    and l4: "last_stage (recorded CssSelector ?h4) = 4"
    and l5: "last_stage (recorded CssSelector ?h5) = 5"
    unfolding r3 r4 r5 by (simp_all add: last_stage_def)
  have q3: "list_all (\<lambda>q. stage q = last_stage (recorded CssSelector ?h3)) ?q3"
    and q4: "list_all (\<lambda>q. stage q = last_stage (recorded CssSelector ?h4)) ?q4"
    and q5: "list_all (\<lambda>q. stage q = last_stage (recorded CssSelector ?h5)) ?q5"
    unfolding l3 l4 l5 by simp_all
  have s3: "stringify (attempts CssSelector ?h3) = Inr ''#main.container''"
    and s4: "stringify (attempts CssSelector ?h4) = Inr ''a[href]''"
    and s5: "stringify (attempts CssSelector ?h5) = Inr ''a:hover''"
    by (simp_all add: eval_defs stringify_eq shown_def)
  have f3: "classItems (attempts CssSelector ?h3) = [''container'']"
    and f4: "attrItems (attempts CssSelector ?h4) = [''href'']"
    and f5: "pseudoClassItems (attempts CssSelector ?h5) = [''hover'']"
    by (simp_all add: eval_defs)
  obtain a sa where a: "chain_calls (attempts CssSelector ?h3) ?q3 = Inr a"
    "classItems a = classItems (attempts CssSelector ?h3) @ values_of 3 ?q3"
    "stringify (attempts CssSelector ?h3) = Inr sa"
    "stringify a = Inr (sa @ concat (map part_text ?q3))"
    using multi_valued_repeats [OF disjI1 [OF l3] q3] by blast
  obtain b sb where b: "chain_calls (attempts CssSelector ?h4) ?q4 = Inr b"
    "attrItems b = attrItems (attempts CssSelector ?h4) @ values_of 4 ?q4"
    "stringify (attempts CssSelector ?h4) = Inr sb"
    "stringify b = Inr (sb @ concat (map part_text ?q4))"
    using multi_valued_repeats [OF disjI2 [OF disjI1 [OF l4]] q4] by blast
  obtain c sc where c: "chain_calls (attempts CssSelector ?h5) ?q5 = Inr c"
    "pseudoClassItems c = pseudoClassItems (attempts CssSelector ?h5) @ values_of 5 ?q5"
    "stringify (attempts CssSelector ?h5) = Inr sc"
    "stringify c = Inr (sc @ concat (map part_text ?q5))"
    using multi_valued_repeats [OF disjI2 [OF disjI2 [OF l5]] q5] by blast
  have a1: "classItems a = [''container'', ''editable'', ''container'']"
    using a(2) unfolding f3 by (simp add: values_of_def)
  have "sa = ''#main.container''"
    using a(3) unfolding s3 by simp
  then have a2: "stringify a = Inr ''#main.container.editable.container''"
    using a(4) by simp
  note a' = a1 a2
  have b1: "attrItems b = [''href'', ''x'', ''x'']"
    using b(2) unfolding f4 by (simp add: values_of_def)
  have "sb = ''a[href]''"
    using b(3) unfolding s4 by simp
  then have b2: "stringify b = Inr ''a[href][x][x]''"
    using b(4) by simp
  note b' = b1 b2
  have c1: "pseudoClassItems c = [''hover'', ''focus'', ''hover'']"
    using c(2) unfolding f5 by (simp add: values_of_def)
  have "sc = ''a:hover''"
    using c(3) unfolding s5 by simp
  then have c2: "stringify c = Inr ''a:hover:focus:hover''"
    using c(4) by simp
  note c' = c1 c2
  have "\<exists>this'. chain_calls (attempts CssSelector ?h3) ?q3 = Inr this' \<and>
      classItems this' = [''container'', ''editable'', ''container''] \<and>
      stringify this' = Inr ''#main.container.editable.container''"
    using a(1) a' by blast
  moreover have "\<exists>this'. chain_calls (attempts CssSelector ?h4) ?q4 = Inr this' \<and>
      attrItems this' = [''href'', ''x'', ''x''] \<and>
      stringify this' = Inr ''a[href][x][x]''"
    using b(1) b' by blast
  moreover have "\<exists>this'. chain_calls (attempts CssSelector ?h5) ?q5 = Inr this' \<and>
      pseudoClassItems this' = [''hover'', ''focus'', ''hover''] \<and>
      stringify this' = Inr ''a:hover:focus:hover''"
    using c(1) c' by blast
  ultimately show ?thesis
    using l3 l4 l5 q3 q4 q5 by blast
qed

text \<open>
  C8. A singleton part set to the empty string is left out of the output together with
  its prefix (\<open>id('')\<close> gives no \<open>#\<close>, \<open>pseudoElement('')\<close> no \<open>::\<close>), whereas an
  empty string in a multi-valued sequence still gives its prefix or brackets, wherever
  it stands in the sequence (\<open>class('')\<close> gives \<open>.\<close>, \<open>class('a').class('')\<close> gives
  \<open>.a.\<close>): \<open>toString\<close> replaces a falsy singleton by the empty array before
  formatting, and folds every entry of an array, empty or not.
\<close>

theorem empty_singleton_omitted:
  "toString (item_of (Some [])) before after = Inr [] \<and>
   toString (Arr [[]]) before after = Inr (before @ after) \<and>
   toString (Arr xs) before after = Inr (concat (map (\<lambda>x. before @ x @ after) xs)) \<and>
   toString (Arr (xs @ [] # ys)) before after =
     Inr (concat (map (\<lambda>x. before @ x @ after) xs) @ before @ after @
          concat (map (\<lambda>x. before @ x @ after) ys)) \<and>
   stringify (this\<lparr>elementItem := Some []\<rparr>) = stringify (this\<lparr>elementItem := None\<rparr>) \<and>
   stringify (this\<lparr>idItem := Some []\<rparr>) = stringify (this\<lparr>idItem := None\<rparr>) \<and>
   stringify (this\<lparr>pseudoElementItem := Some []\<rparr>) =
     stringify (this\<lparr>pseudoElementItem := None\<rparr>) \<and>
   stringify this =
     Inr (shown [] (elementItem this) @ shown ''#'' (idItem this) @
          concat (map (\<lambda>v. ''.'' @ v) (classItems this)) @
          concat (map (\<lambda>v. ''['' @ v @ '']'') (attrItems this)) @
          concat (map (\<lambda>v. '':'' @ v) (pseudoClassItems this)) @
          shown ''::'' (pseudoElementItem this)) \<and>
   shown before (Some []) = [] \<and>
   stringify (attempts CssSelector h) = Inr (spec_stringify_nonempty (recorded CssSelector h)) \<and>
   build [ElementCall []] = Inr [] \<and>
   build [IdCall []] = Inr [] \<and>
   build [PseudoElementCall []] = Inr [] \<and>
   build [ClassCall []] = Inr ''.'' \<and>
   build [AttrCall []] = Inr ''[]'' \<and>
   build [PseudoClassCall []] = Inr '':'' \<and>
   build [ClassCall ''a'', ClassCall []] = Inr ''.a.'' \<and>
   build [ClassCall [], ClassCall ''a'', ClassCall []] = Inr ''..a.'' \<and>
   build [AttrCall [], AttrCall ''b'', PseudoClassCall [], PseudoClassCall ''c''] =
     Inr ''[][b]::c'' \<and>
   build [ElementCall ''a'', IdCall [], ClassCall [], PseudoElementCall []] = Inr ''a.''"
proof -
  have gen: "stringify (attempts CssSelector h) =
      Inr (spec_stringify_nonempty (recorded CssSelector h))"
    using tracks_built by (rule stringify_tracks)
  have builds:
    "build [ClassCall ''a'', ClassCall []] = Inr ''.a.''"
    "build [ClassCall [], ClassCall ''a'', ClassCall []] = Inr ''..a.''"
    "build [AttrCall [], AttrCall ''b'', PseudoClassCall [], PseudoClassCall ''c''] =
     Inr ''[][b]::c''"
    by (simp_all add: build_def stringify_eq shown_def eval_defs)
  have old: "toString (item_of (Some [])) before after = Inr [] \<and>
   toString (Arr [[]]) before after = Inr (before @ after) \<and>
   stringify (this\<lparr>elementItem := Some []\<rparr>) = stringify (this\<lparr>elementItem := None\<rparr>) \<and>
   stringify (this\<lparr>idItem := Some []\<rparr>) = stringify (this\<lparr>idItem := None\<rparr>) \<and>
   stringify (this\<lparr>pseudoElementItem := Some []\<rparr>) =
     stringify (this\<lparr>pseudoElementItem := None\<rparr>) \<and>
   build [ElementCall []] = Inr [] \<and>
   build [IdCall []] = Inr [] \<and>
   build [PseudoElementCall []] = Inr [] \<and>
   build [ClassCall []] = Inr ''.'' \<and>
   build [AttrCall []] = Inr ''[]'' \<and>
   build [PseudoClassCall []] = Inr '':'' \<and>
   build [ElementCall ''a'', IdCall [], ClassCall [], PseudoElementCall []] = Inr ''a.''"
    by (simp add: toString_def item_of_def falsy_def isArray_def reduce_def stringify_eq
      shown_def build_def element_def id_part_def class_part_def attr_def pseudoClass_def
      pseudoElement_def checkRules_def CssSelector_def)
  have arr: "toString (Arr (xs @ [] # ys)) before after =
     Inr (concat (map (\<lambda>x. before @ x @ after) xs) @ before @ after @
          concat (map (\<lambda>x. before @ x @ after) ys))"
    by (simp add: toString_Arr)
  have sh: "shown before (Some []) = []"
    by (simp add: shown_def)
  show ?thesis
    using old gen builds arr sh toString_Arr [of xs before after] stringify_eq [of this]
    by blast
qed


text \<open>The example of the source's documentation, three combinators deep.\<close>

lemma combine_example:
  "stringify_sel
     (combine
        (Simple (attempts CssSelector
           [ElementCall ''div'', IdCall ''main'', ClassCall ''container'',
            ClassCall ''draggable'']))
        ''+''
        (combine
           (Simple (attempts CssSelector [ElementCall ''table'', IdCall ''data'']))
           ''~''
           (combine
              (Simple (attempts CssSelector
                 [ElementCall ''tr'', PseudoClassCall ''nth-of-type(even)'']))
              '' ''
              (Simple (attempts CssSelector
                 [ElementCall ''td'', PseudoClassCall ''nth-of-type(even)'']))))) =
   Inr ''div#main.container.draggable + table#data ~ tr:nth-of-type(even)   td:nth-of-type(even)''"
proof -
  have a: "stringify (attempts CssSelector
      [ElementCall ''div'', IdCall ''main'', ClassCall ''container'',
       ClassCall ''draggable'']) = Inr ''div#main.container.draggable''"
    by (simp add: eval_defs stringify_eq shown_def)
  have b: "stringify (attempts CssSelector [ElementCall ''table'', IdCall ''data'']) =
      Inr ''table#data''"
    by (simp add: eval_defs stringify_eq shown_def)
  have c: "stringify (attempts CssSelector
      [ElementCall ''tr'', PseudoClassCall ''nth-of-type(even)'']) =
      Inr ''tr:nth-of-type(even)''"
    by (simp add: eval_defs stringify_eq shown_def)
  have d: "stringify (attempts CssSelector
      [ElementCall ''td'', PseudoClassCall ''nth-of-type(even)'']) =
      Inr ''td:nth-of-type(even)''"
    by (simp add: eval_defs stringify_eq shown_def)
  show ?thesis
    unfolding combine_def stringify_sel.simps a b c d by (simp add: str_plus_def)
qed


section \<open>The JSON round trip\<close>

lemma of_char_digit_char: "d < 10 \<Longrightarrow> (of_char (digit_char d) :: nat) = 48 + d"
  by (simp add: digit_char_def)

lemma is_digit_digit_char: "d < 10 \<Longrightarrow> is_digit (digit_char d)"
  by (simp add: is_digit_def of_char_digit_char)

lemma show_nat_nonempty: "show_nat n \<noteq> []"
  by (subst show_nat.simps) simp

lemma show_nat_digits: "list_all is_digit (show_nat n)"
proof (induction n rule: show_nat.induct)
  case (1 n)
  show ?case
  proof (cases "n < 10")
    case True
    then show ?thesis
      by (subst show_nat.simps) (simp add: is_digit_digit_char)
  next
    case False
    with 1 show ?thesis
      by (subst show_nat.simps) (simp add: is_digit_digit_char)
  qed
qed







lemma hd_show_nat_digit: "is_digit (hd (show_nat n))"
  using show_nat_digits [of n] show_nat_nonempty [of n]
  by (cases "show_nat n") simp_all












lemma show_int_first: "\<exists>c t. show_int i = c # t \<and> (c = CHR ''-'' \<or> is_digit c)"
proof (cases "i < 0")
  case True
  then show ?thesis by (simp add: show_int_def)
next
  case False
  obtain c t where ct: "show_nat (nat i) = c # t"
    using show_nat_nonempty [of "nat i"] by (cases "show_nat (nat i)") auto
  with hd_show_nat_digit [of "nat i"] False show ?thesis
    by (simp add: show_int_def)
qed

lemma stringify_first: "\<exists>c t. JSON_stringify v = c # t \<and> first_char c"
proof (cases v)
  case (JNum i)
  with show_int_first [of i] show ?thesis
    by (auto simp: first_char_def)
qed (auto simp: first_char_def quote_def)

lemma first_char_not:
  assumes "first_char c"
  shows "\<not> is_ws c" "c \<noteq> CHR '']''" "c \<noteq> CHR ''}''" "c \<noteq> CHR '',''" "c \<noteq> CHR '':''"
  using assms by (auto simp: first_char_def is_ws_def is_digit_def)

lemma skip_ws_first: "\<not> is_ws c \<Longrightarrow> skip_ws (c # t) = c # t"
  by (simp add: skip_ws_def)

lemma skip_ws_stringify: "skip_ws (JSON_stringify v @ r) = JSON_stringify v @ r"
proof -
  obtain c t where "JSON_stringify v = c # t" "first_char c"
    using stringify_first by blast
  then show ?thesis
    by (simp add: skip_ws_first first_char_not)
qed












text \<open>The text of the source's documentation, with white space after the comma.\<close>

lemma fromJSON_example:
  \<open>fromJSON Rectangle_prototype ''{"width":10, "height":20}'' =
     Inr (Object (JObj [(''width'', JNum 10), (''height'', JNum 20)]) Rectangle_prototype)\<close>
  by code_simp


section \<open>Rectangle: the area\<close>

text \<open>
  C10. For every pair of numbers \<open>w\<close> and \<open>h\<close>, the object constructed by
  \<open>Rectangle(w, h)\<close> has width \<open>w\<close>, height \<open>h\<close>, and \<open>getArea()\<close> returns
  \<open>w * h\<close>; a rectangle of width 10 and height 20 has area 200.
\<close>

theorem Rectangle_getArea:
  "width (Rectangle w h) = w \<and>
   height (Rectangle w h) = h \<and>
   getArea (Rectangle w h) = w * h \<and>
   width (Rectangle (10::int) 20) = 10 \<and>
   height (Rectangle (10::int) 20) = 20 \<and>
   getArea (Rectangle (10::int) 20) = 200"
  by (simp add: Rectangle_def getArea_def)

end
